theory Spec2Isabelle
  imports Complex_Main "HOL-Library.Word" "HOL-Library.Log_Nat"
begin

unbundle bit_operations_syntax

section \<open>Machine types and undefined behaviour\<close>

type_synonym u8 = "8 word"
type_synonym u32 = "32 word"
type_synonym u64 = "64 word"

text \<open>
  The codec of \<^verbatim>\<open>compress_integer_elias_delta.cpp\<close> has no error channel: \<^verbatim>\<open>encode\<close>
  returns a \<^verbatim>\<open>size_t\<close> and \<^verbatim>\<open>decode\<close> returns \<^verbatim>\<open>void\<close>. What the embedding
  returns on the left of a sum is therefore never an error the code reports; it marks the
  places where the C++ program has undefined behaviour, so that no theorem below says
  anything about what a compiler makes of them:
  \<^item> \<open>Out_Of_Bounds\<close>: a read or write of bytes outside the object a pointer points into;
  \<^item> \<open>Shift_Out_Of_Range\<close>: a shift whose count is not smaller than the width of the
    (promoted) left operand.

  The element type \<^verbatim>\<open>integer\<close> is declared in a header that is not part of the sources at
  hand. It is taken as a parameter: an unsigned integer of \<open>LENGTH('a)\<close> bits, \<open>'a word\<close>,
  converted to and from the 64-bit values the code computes with as C++ does (zero
  extension on load, truncation on store).
\<close>

datatype undefined_behaviour = Out_Of_Bounds | Shift_Out_Of_Range

definition bind_ub :: "undefined_behaviour + 'x \<Rightarrow> ('x \<Rightarrow> undefined_behaviour + 'y) \<Rightarrow> undefined_behaviour + 'y" where
  "bind_ub m f = (case m of Inl e \<Rightarrow> Inl e | Inr x \<Rightarrow> f x)"

section \<open>\<^verbatim>\<open>maths::floor_log2\<close>\<close>

text \<open>
  Modelled from the spec: the table \<^verbatim>\<open>maths::floor_log2_answer\<close> is declared in
  \<^verbatim>\<open>maths.h\<close> (\<^verbatim>\<open>static const uint8_t floor_log2_answer[]\<close>) but defined in a file that is
  not among the sources. The spec uses \<^verbatim>\<open>floor_log2\<close> as \<open>\<lfloor>log2 x\<rfloor>\<close> (``\<open>L\<close> = bit-length
  of \<open>N\<close> = \<open>\<lfloor>log2 N\<rfloor> + 1\<close>''), and \<^verbatim>\<open>maths::unittest\<close> asserts \<^verbatim>\<open>floor_log2(10) == 3\<close>; the
  loop of \<^verbatim>\<open>floor_log2\<close> indexes the table with one byte, so the table has 256 entries and
  entry \<open>i\<close> is \<open>\<lfloor>log2 i\<rfloor>\<close> for \<open>1 \<le> i \<le> 255\<close>. Entry 0, for which the logarithm is
  undefined, is not fixed by the spec; it is written as 0 here. Nothing below rests on that
  value: \<^verbatim>\<open>floor_log2\<close> reads entry 0 as a result for the argument 0 only, the lemmas about
  \<^verbatim>\<open>floor_log2\<close> are about nonzero arguments, and what is proved about a zero element
  is stated in terms of \<open>floor_log2 0\<close>, whatever it is.
\<close>

definition floor_log2_answer :: "u8 list" where
  "floor_log2_answer =
     [0, 0, 1, 1] @ replicate 4 2 @ replicate 8 3 @ replicate 16 4 @
     replicate 32 5 @ replicate 64 6 @ replicate 128 7"

text \<open>
  \<^verbatim>\<open>static size_t floor_log2(size_t x)\<close>: a do-while loop over the bytes of \<open>x\<close>, from the
  least significant one; the sum of the last iteration, the one that sees the highest
  nonzero byte, is returned. The index \<open>x AND 0xFF\<close> is below 256, the length of the table.
\<close>

function floor_log2_loop :: "u64 \<Rightarrow> u64 \<Rightarrow> u64" where
  "floor_log2_loop x mult =
     (let sum = ucast (floor_log2_answer ! unat (x AND 0xFF)) + mult;
          mult' = mult + 8;
          x' = drop_bit 8 x
      in if x' \<noteq> 0 then floor_log2_loop x' mult' else sum)"
  by pat_completeness auto
termination
proof (relation "measure (\<lambda>(x, mult). unat x)")
  show "wf (measure (\<lambda>(x :: u64, mult :: u64). unat x))"
    by simp
next
  fix x mult sum mult' x' :: u64
  assume x': "x' = drop_bit 8 x" and "x' \<noteq> 0"
  then have nz: "unat x' \<noteq> 0"
    unfolding unat_eq_0 by simp
  have "unat x' = unat x div 2 ^ 8"
    unfolding x' by (simp add: unat_drop_bit_eq drop_bit_eq_div unat_div)
  with nz have "unat x' < unat x"
    by simp
  then show "((x', mult'), (x, mult)) \<in> measure (\<lambda>(x, mult). unat x)"
    by simp
qed

declare floor_log2_loop.simps [simp del]

definition floor_log2 :: "u64 \<Rightarrow> u64" where
  "floor_log2 x = floor_log2_loop x 0"

section \<open>Memory: a byte buffer read and written through 64-bit words\<close>

text \<open>
  A buffer is the list of the bytes of the object the pointer points into.
  \<^verbatim>\<open>reinterpret_cast<uint64_t *>(encoded + k)\<close> followed by a dereference reads or writes
  the eight bytes from offset \<open>k\<close> on, the least significant byte first (the code is
  x86-64 only: it uses the BMI1 intrinsics of \<^verbatim>\<open>immintrin.h\<close>), at any alignment, as
  the processor does. An access is in bounds when all eight bytes lie in the object.
\<close>

definition le_bytes_to_u64 :: "u8 list \<Rightarrow> u64" where
  "le_bytes_to_u64 bs = foldr (\<lambda>b acc. ucast b OR push_bit 8 acc) bs 0"

definition u64_to_le_bytes :: "u64 \<Rightarrow> u8 list" where
  "u64_to_le_bytes w = map (\<lambda>i. ucast (drop_bit (8 * i) w)) [0..<8]"

definition load64 :: "u8 list \<Rightarrow> nat \<Rightarrow> undefined_behaviour + u64" where
  "load64 mem off =
     (if off + 8 \<le> length mem then Inr (le_bytes_to_u64 (take 8 (drop off mem)))
      else Inl Out_Of_Bounds)"

definition store64 :: "u8 list \<Rightarrow> nat \<Rightarrow> u64 \<Rightarrow> undefined_behaviour + u8 list" where
  "store64 mem off w =
     (if off + 8 \<le> length mem then Inr (take off mem @ u64_to_le_bytes w @ drop (off + 8) mem)
      else Inl Out_Of_Bounds)"

text \<open>\<^verbatim>\<open>*address |= pattern\<close> with \<^verbatim>\<open>address\<close> at byte offset \<open>off\<close>.\<close>

definition or64 :: "u8 list \<Rightarrow> nat \<Rightarrow> u64 \<Rightarrow> undefined_behaviour + u8 list" where
  "or64 mem off pattern = bind_ub (load64 mem off) (\<lambda>w. store64 mem off (w OR pattern))"

text \<open>\<^verbatim>\<open>memset(encoded, 0, encoded_buffer_length)\<close>.\<close>

definition memset0 :: "u8 list \<Rightarrow> nat \<Rightarrow> undefined_behaviour + u8 list" where
  "memset0 mem len =
     (if len \<le> length mem then Inr (replicate len 0 @ drop len mem) else Inl Out_Of_Bounds)"

section \<open>\<^verbatim>\<open>compress_integer_elias_delta::encode\<close>\<close>

text \<open>
  One iteration of the loop over the source integers, on the state \<open>(encoded, into)\<close>:
  the buffer and the bit position to write into. The shift counts of this function are
  in range for every nonzero element (\<open>unary \<le> 6\<close>, \<open>n - 1 \<le> 63\<close>, \<open>shift < 8\<close>; see
  \<open>floor_log2_le_63\<close>), and for a zero element as long as \<open>floor_log2 0\<close> is below 64, so
  only the two word-sized writes can leave defined behaviour. A left shift of an unsigned
  value that pushes bits beyond bit 63 is defined in C++ and drops them, as \<open>push_bit\<close>
  does on \<open>u64\<close>.
\<close>

definition encode_step :: "u8 list \<times> u64 \<Rightarrow> 'a::len word \<Rightarrow> undefined_behaviour + u8 list \<times> u64" where
  "encode_step st v =
     (case st of (encoded, into) \<Rightarrow>
        let n :: u32 = ucast (floor_log2 (ucast v) + 1);
            unary :: u32 = ucast (floor_log2 (ucast n));
            into = into + ucast unary;
            zig_zag :: u64 = ucast (push_bit 1 (n AND NOT (push_bit (unat unary) 1)) + 1);
            shift = into mod 8;
            pattern = push_bit (unat shift) zig_zag
        in bind_ub (or64 encoded (unat (into div 8)) pattern) (\<lambda>encoded.
        let into = into + ucast (unary + 1);
            shift = into mod 8;
            pattern = push_bit (unat shift) (ucast v AND NOT (push_bit (unat (n - 1)) 1))
        in bind_ub (or64 encoded (unat (into div 8)) pattern) (\<lambda>encoded.
        let into = into + ucast (n - 1)
        in Inr (encoded, into))))"

fun encode_loop :: "u8 list \<times> u64 \<Rightarrow> 'a::len word list \<Rightarrow> undefined_behaviour + u8 list \<times> u64" where
  "encode_loop st [] = Inr st"
| "encode_loop st (v # vs) = bind_ub (encode_step st v) (\<lambda>st'. encode_loop st' vs)"

text \<open>
  \<^verbatim>\<open>encode(encoded_as_void, encoded_buffer_length, source, source_integers)\<close>: the source
  array and its length are the list \<open>source\<close>; the result is the buffer after the call and
  the returned number of bytes.
\<close>

definition encode :: "u8 list \<Rightarrow> nat \<Rightarrow> 'a::len word list \<Rightarrow> undefined_behaviour + u8 list \<times> u64" where
  "encode encoded encoded_buffer_length source =
     bind_ub (memset0 encoded encoded_buffer_length) (\<lambda>encoded.
     bind_ub (encode_loop (encoded, 0) source) (\<lambda>(encoded, into).
     Inr (encoded, (into + 7) div 8)))"

section \<open>\<^verbatim>\<open>compress_integer_elias_delta::decode\<close>\<close>

text \<open>
  The intrinsics, as the instruction set reference defines them. \<^verbatim>\<open>_tzcnt_u64\<close> counts the
  trailing zero bits and gives 64 for 0. \<^verbatim>\<open>_bextr_u64(a, start, len)\<close> uses the low eight
  bits of \<open>start\<close> and of \<open>len\<close> and extracts \<open>len\<close> bits of \<open>a\<close> from bit \<open>start\<close> on; bits
  beyond bit 63 read as zero.
\<close>

definition tzcnt_u64 :: "u64 \<Rightarrow> u64" where
  "tzcnt_u64 x = of_nat (length (takeWhile (\<lambda>i. \<not> bit x i) [0..<64]))"

definition bextr_u64 :: "u64 \<Rightarrow> u64 \<Rightarrow> u64 \<Rightarrow> u64" where
  "bextr_u64 a start len = take_bit (unat len mod 256) (drop_bit (unat start mod 256) a)"

text \<open>
  Shifts of a 64-bit unsigned value by a 64-bit count, and \<^verbatim>\<open>1 << k\<close> where \<^verbatim>\<open>1\<close> is an
  \<^verbatim>\<open>int\<close> (32 bits): the result is an \<^verbatim>\<open>int\<close>, which the code then combines with a
  \<^verbatim>\<open>uint64_t\<close>, so it is sign-extended (\<^verbatim>\<open>1 << 31\<close> is the most negative \<^verbatim>\<open>int\<close>).
  \<^verbatim>\<open>1UL\<close> is 64 bits wide (LP64).
\<close>

definition shr64 :: "u64 \<Rightarrow> u64 \<Rightarrow> undefined_behaviour + u64" where
  "shr64 x k = (if k < 64 then Inr (drop_bit (unat k) x) else Inl Shift_Out_Of_Range)"

definition shl64 :: "u64 \<Rightarrow> u64 \<Rightarrow> undefined_behaviour + u64" where
  "shl64 x k = (if k < 64 then Inr (push_bit (unat k) x) else Inl Shift_Out_Of_Range)"

definition int_one_shl :: "u64 \<Rightarrow> undefined_behaviour + u64" where
  "int_one_shl k =
     (if k < 32 then Inr (scast (push_bit (unat k) (1 :: u32))) else Inl Shift_Out_Of_Range)"

text \<open>
  The state of the decoding loop. \<open>source\<close> is the index of the 64-bit word the pointer
  \<^verbatim>\<open>source\<close> points to, \<open>decoded\<close> the integers stored so far through the pointer
  \<^verbatim>\<open>decoded\<close>, in order, and \<open>total\<close> the function's \<^verbatim>\<open>static uint32_t total\<close>, which
  outlives the call.
\<close>

record 'e decoder =
  decoded :: "'e list"
  bits_used :: u64
  unary :: u64
  source :: nat
  "value" :: u64
  total :: u32

text \<open>\<^verbatim>\<open>value = *source++\<close>: read the word \<open>source\<close> points to, then advance the pointer.\<close>

definition fetch :: "u8 list \<Rightarrow> 'a::len word decoder \<Rightarrow> undefined_behaviour + 'a word decoder" where
  "fetch mem s =
     bind_ub (load64 mem (8 * source s)) (\<lambda>w. Inr (s\<lparr>value := w, source := source s + 1\<rparr>))"

text \<open>``get the width of the width''.\<close>

definition scan_unary :: "u8 list \<Rightarrow> 'a::len word decoder \<Rightarrow> undefined_behaviour + 'a word decoder" where
  "scan_unary mem s =
     (if value s = 0 then
        let s = s\<lparr>unary := 64 - bits_used s\<rparr>
        in bind_ub (fetch mem s) (\<lambda>s.
        let s = s\<lparr>bits_used := tzcnt_u64 (value s)\<rparr>
        in bind_ub (shr64 (value s) (bits_used s)) (\<lambda>w.
        Inr (s\<lparr>value := w, unary := unary s + bits_used s\<rparr>)))
      else
        let s = s\<lparr>unary := tzcnt_u64 (value s)\<rparr>;
            s = s\<lparr>bits_used := bits_used s + unary s\<rparr>
        in bind_ub (shr64 (value s) (unary s)) (\<lambda>w.
        Inr (s\<lparr>value := w\<rparr>)))"

text \<open>
  ``get the zig-zag encoded length of the integer and un-zig-zag it''; the result is the
  state and the local \<^verbatim>\<open>binary\<close>. The local \<^verbatim>\<open>before\<close> of the source is \<open>before0\<close> here.
\<close>

definition read_length :: "u8 list \<Rightarrow> 'a::len word decoder \<Rightarrow> undefined_behaviour + 'a word decoder \<times> u64" where
  "read_length mem s =
     (if bits_used s + unary s + 1 > 64 then
        bind_ub (shl64 (value s) (unary s - (64 - bits_used s))) (\<lambda>binary.
        bind_ub (fetch mem s) (\<lambda>s.
        let extra = bextr_u64 (value s) 0 (unary s - (64 - bits_used s) + 1);
            binary = binary OR extra;
            s = s\<lparr>bits_used := unary s - (64 - bits_used s) + 1\<rparr>
        in bind_ub (shl64 1 (unary s)) (\<lambda>top.
        let binary = drop_bit 1 binary OR top
        in bind_ub (shr64 (value s) (bits_used s)) (\<lambda>w.
        Inr (s\<lparr>value := w\<rparr>, binary)))))
      else
        let before0 = bextr_u64 (value s) 0 (unary s + 1)
        in bind_ub (shl64 1 (unary s)) (\<lambda>top.
        let binary = drop_bit 1 before0 OR top;
            s = s\<lparr>bits_used := bits_used s + (unary s + 1)\<rparr>
        in bind_ub (shr64 (value s) (unary s + 1)) (\<lambda>w.
        Inr (s\<lparr>value := w\<rparr>, binary))))"

text \<open>
  ``get the binary value that is encoded''. \<^verbatim>\<open>*decoded = e\<close> truncates the 64-bit \<open>e\<close> to
  the element type; \<^verbatim>\<open>*decoded |= e\<close> extends the stored element again, combines and
  truncates. The new element is appended to \<open>decoded\<close>.
\<close>

definition read_value :: "u8 list \<Rightarrow> 'a::len word decoder \<Rightarrow> u64 \<Rightarrow> undefined_behaviour + 'a word decoder" where
  "read_value mem s binary =
     (if bits_used s + binary > 64 then
        bind_ub (shl64 (value s) (binary - (64 - bits_used s))) (\<lambda>hi.
        let cell :: 'a word = ucast hi
        in bind_ub (fetch mem s) (\<lambda>s.
        let low_bits = bextr_u64 (value s) 0 (binary - (64 - bits_used s))
        in bind_ub (int_one_shl (binary - 1)) (\<lambda>top.
        let cell :: 'a word = ucast ((ucast cell :: u64) OR (low_bits OR top));
            s = s\<lparr>bits_used := binary - (64 - bits_used s)\<rparr>
        in bind_ub (shr64 (value s) (bits_used s)) (\<lambda>w.
        Inr (s\<lparr>value := w, decoded := decoded s @ [cell]\<rparr>)))))
      else
        bind_ub (int_one_shl (binary - 1)) (\<lambda>top.
        let cell :: 'a word = ucast (bextr_u64 (value s) 0 binary OR top);
            s = s\<lparr>bits_used := bits_used s + (binary - 1)\<rparr>
        in bind_ub (shr64 (value s) (binary - 1)) (\<lambda>w.
        Inr (s\<lparr>value := w, decoded := decoded s @ [cell]\<rparr>))))"

text \<open>
  The body of the loop. It starts with the leftover debugging code: the test
  \<^verbatim>\<open>total == 15\<close> guards a block that only declares a local, and \<^verbatim>\<open>total++\<close> wraps
  around as an unsigned counter.
\<close>

definition decode_step :: "u8 list \<Rightarrow> 'a::len word decoder \<Rightarrow> undefined_behaviour + 'a word decoder" where
  "decode_step mem s =
     (let s = (if total s = 15 then s else s);
          s = s\<lparr>total := total s + 1\<rparr>
      in bind_ub (scan_unary mem s) (\<lambda>s.
         bind_ub (read_length mem s) (\<lambda>(s, binary).
         read_value mem s binary)))"

text \<open>The loop runs \<^verbatim>\<open>integers_to_decode\<close> times: once for each element up to \<^verbatim>\<open>end\<close>.\<close>

fun decode_loop :: "u8 list \<Rightarrow> nat \<Rightarrow> 'a::len word decoder \<Rightarrow> undefined_behaviour + 'a word decoder" where
  "decode_loop mem 0 s = Inr s"
| "decode_loop mem (Suc k) s = bind_ub (decode_step mem s) (decode_loop mem k)"

text \<open>
  \<^verbatim>\<open>decode(decoded, integers_to_decode, source_as_void, source_length)\<close>, called when the
  static counter holds \<open>total0\<close>: the result is the array filled through \<^verbatim>\<open>decoded\<close> and
  the counter after the call. The first word is read before the loop, and the pointer is
  not advanced by that read. \<^verbatim>\<open>source_length\<close> is a parameter the body never mentions.
\<close>

definition decode :: "u32 \<Rightarrow> nat \<Rightarrow> u8 list \<Rightarrow> nat \<Rightarrow> undefined_behaviour + 'a::len word list \<times> u32" where
  "decode total0 integers_to_decode source_as_void source_length =
     bind_ub (load64 source_as_void 0) (\<lambda>w.
     bind_ub (decode_loop source_as_void integers_to_decode
                \<lparr>decoded = [], bits_used = 0, unary = 0, source = 0, value = w, total = total0\<rparr>) (\<lambda>s.
     Inr (decoded s, total s)))"

section \<open>The codeword length of the specification\<close>

text \<open>
  The length the specification gives for the codeword of \<open>N\<close>, in its own words: with
  \<open>L\<close> the bit-length of \<open>N\<close> and \<open>u = \<lfloor>log2 L\<rfloor>\<close>, the codeword has \<open>u\<close> unary bits, a
  length field of \<open>u + 1\<close> bits and a value field of \<open>L - 1\<close> bits. \<open>floorlog 2\<close> is the
  bit-length. \<open>total_bits\<close> adds the lengths up over a sequence.
\<close>

definition codeword_bits :: "nat \<Rightarrow> nat" where
  "codeword_bits N = (let L = floorlog 2 N; u = floorlog 2 L - 1 in 2 * u + 1 + (L - 1))"

definition total_bits :: "'a::len word list \<Rightarrow> nat" where
  "total_bits S = sum_list (map (\<lambda>v. codeword_bits (unat v)) S)"

text \<open>
  The bit-stream view of a buffer, as the specification's data model has it: bit \<open>b\<close> of
  the stream is bit \<open>b mod 8\<close> of byte \<open>b div 8\<close>, least significant bit first.
  \<open>stream_bits mem k\<close> lists the first \<open>k\<close> bits.
\<close>

definition stream_bits :: "u8 list \<Rightarrow> nat \<Rightarrow> bool list" where
  "stream_bits mem k = map (\<lambda>b. bit (mem ! (b div 8)) (b mod 8)) [0..<k]"

section \<open>\<^verbatim>\<open>floor_log2\<close> computes the bit-length minus one\<close>

lemma length_floor_log2_answer: "length floor_log2_answer = 256"
  by (simp add: floor_log2_answer_def)

lemma table_all: "\<forall>i\<in>set [1..<256]. Suc (unat (floor_log2_answer ! i)) = floorlog 2 i"
  by code_simp

lemma floor_log2_answer_correct:
  "0 < i \<Longrightarrow> i < 256 \<Longrightarrow> unat (floor_log2_answer ! i) = floorlog 2 i - 1"
  using table_all by (auto simp del: upt_conv_Cons dest!: bspec [where x = i])

lemma floorlog_div_pow2:
  "0 < x div 2 ^ k \<Longrightarrow> floorlog 2 x = floorlog 2 (x div 2 ^ k) + k"
proof (induction k arbitrary: x)
  case 0
  then show ?case by simp
next
  case (Suc k)
  have "x div 2 ^ Suc k = (x div 2) div 2 ^ k"
    by (simp add: div_mult2_eq)
  with Suc.prems have pos: "0 < (x div 2) div 2 ^ k"
    by simp
  then have "0 < x"
    by (metis div_0 gr0I)
  then have "floorlog 2 x = floorlog 2 (x div 2) + 1"
    by (subst compute_floorlog) simp
  also have "floorlog 2 (x div 2) = floorlog 2 ((x div 2) div 2 ^ k) + k"
    using pos by (rule Suc.IH)
  finally show ?case
    by (simp add: div_mult2_eq)
qed

lemma unat_drop_bit_8: "unat (drop_bit 8 x) = unat x div 256" for x :: u64
  by (simp add: unat_drop_bit_eq drop_bit_eq_div unat_div)

lemma unat_and_0xFF: "unat (x AND 0xFF) = unat x mod 256" for x :: u64
proof -
  have "x AND 0xFF = take_bit 8 x"
    by (simp add: take_bit_eq_mask mask_eq_exp_minus_1)
  then show ?thesis
    by (simp add: unsigned_take_bit_eq take_bit_eq_mod unat_mod)
qed

lemma floor_log2_loop_correct:
  "x \<noteq> 0 \<Longrightarrow> unat mult + floorlog 2 (unat x) \<le> 64 \<Longrightarrow>
   unat (floor_log2_loop x mult) = unat mult + (floorlog 2 (unat x) - 1)"
proof (induction x mult rule: floor_log2_loop.induct)
  case (1 x mult)
  show ?case
  proof (cases "drop_bit 8 x = 0")
    case True
    then have small: "unat x < 256"
      using unat_drop_bit_8 [of x] by (simp add: div_eq_0_iff)
    then have idx: "unat (x AND 0xFF) = unat x"
      by (simp add: unat_and_0xFF)
    have "0 < unat x"
      using "1.prems"(1) by (simp add: unat_gt_0)
    with small have entry: "unat (floor_log2_answer ! unat x) = floorlog 2 (unat x) - 1"
      by (rule floor_log2_answer_correct [rotated])
    have le7: "floorlog 2 (unat x) \<le> 8"
      using small by (simp add: floorlog_le_iff)
    have "floor_log2_loop x mult = ucast (floor_log2_answer ! unat x) + mult"
      using True idx by (subst floor_log2_loop.simps) (simp add: Let_def del: drop_bit_numeral_bit0)
    moreover have "unat (ucast (floor_log2_answer ! unat x) + mult :: u64)
        = unat (floor_log2_answer ! unat x) + unat mult"
      using entry le7 "1.prems"(2)
      by (simp add: unat_word_ariths unsigned_ucast_eq take_bit_nat_eq_self unsigned_less [THEN less_trans])
    ultimately show ?thesis
      using entry by simp
  next
    case False
    then have pos: "0 < unat x div 2 ^ 8"
      using unat_drop_bit_8 [of x] by (simp add: unat_eq_0 [symmetric] del: drop_bit_numeral_bit0)
    have fl: "floorlog 2 (unat x) = floorlog 2 (unat (drop_bit 8 x)) + 8"
      using floorlog_div_pow2 [OF pos] by (simp add: unat_drop_bit_8 del: drop_bit_numeral_bit0)
    have m8: "unat (mult + 8) = unat mult + 8"
      using "1.prems"(2) fl by (simp add: unat_word_ariths)
    have ge1: "1 \<le> floorlog 2 (unat (drop_bit 8 x))"
      using pos by (simp add: unat_drop_bit_8 floorlog_def del: drop_bit_numeral_bit0)
    have "floor_log2_loop x mult = floor_log2_loop (drop_bit 8 x) (mult + 8)"
      using False by (subst floor_log2_loop.simps) (simp add: Let_def del: drop_bit_numeral_bit0)
    moreover have "unat (floor_log2_loop (drop_bit 8 x) (mult + 8))
        = unat (mult + 8) + (floorlog 2 (unat (drop_bit 8 x)) - 1)"
      using False "1.prems"(2) fl m8 by (intro "1.IH") (simp_all del: drop_bit_numeral_bit0)
    ultimately show ?thesis
      using fl m8 ge1 by simp
  qed
qed

lemma floorlog_unat_le_64: "floorlog 2 (unat x) \<le> 64" for x :: u64
  using unsigned_less [of x] by (simp add: floorlog_le_iff)

lemma unat_floor_log2: "x \<noteq> 0 \<Longrightarrow> unat (floor_log2 x) = floorlog 2 (unat x) - 1"
  using floor_log2_loop_correct [of x 0] floorlog_unat_le_64 [of x]
  by (simp add: floor_log2_def)

lemma floor_log2_le_63: "x \<noteq> 0 \<Longrightarrow> unat (floor_log2 x) \<le> 63"
  using floorlog_unat_le_64 [of x] by (simp add: unat_floor_log2)

text \<open>For the argument 0 the loop runs once and returns entry 0 of the table.\<close>

lemma floor_log2_zero: "floor_log2 0 = ucast (floor_log2_answer ! 0)"
  by (simp add: floor_log2_def floor_log2_loop.simps)

lemma floorlog_minus_1: "0 < n \<Longrightarrow> floorlog 2 n - 1 = nat \<lfloor>log 2 (real n)\<rfloor>"
  by (simp add: floorlog_def)

section \<open>The encoder: cursor arithmetic and defined behaviour\<close>

lemma bind_ub_Inr [simp]: "bind_ub (Inr x) f = f x"
  by (simp add: bind_ub_def)

lemma bind_ub_Inl [simp]: "bind_ub (Inl e) f = Inl e"
  by (simp add: bind_ub_def)

lemma length_u64_to_le_bytes [simp]: "length (u64_to_le_bytes w) = 8"
  by (simp add: u64_to_le_bytes_def)

lemma or64_in_bounds:
  "off + 8 \<le> length mem \<Longrightarrow> \<exists>mem'. or64 mem off p = Inr mem' \<and> length mem' = length mem"
  by (simp add: or64_def load64_def store64_def)

lemma or64_out_of_bounds:
  "\<not> off + 8 \<le> length mem \<Longrightarrow> or64 mem off p = Inl Out_Of_Bounds"
  by (simp add: or64_def load64_def)

lemma unat_ucast_same:
  "LENGTH('a::len) \<le> 64 \<Longrightarrow> unat (ucast (v :: 'a word) :: u64) = unat v"
proof -
  assume "LENGTH('a) \<le> 64"
  then have "(2::nat) ^ LENGTH('a) \<le> 2 ^ 64"
    by (intro power_increasing) simp_all
  then have "unat v < 2 ^ 64"
    using unsigned_less [of v, where 'a = nat] by linarith
  then show ?thesis
    by (simp add: unsigned_ucast_eq take_bit_nat_eq_self)
qed

lemma floorlog_2_le_7: "n \<le> 64 \<Longrightarrow> floorlog 2 n \<le> 7"
  by (simp add: floorlog_le_iff)

text \<open>The bit-length \<open>n\<close> and the unary length computed by one step of the encoder.\<close>

lemma encode_n:
  fixes v :: "'a::len word"
  assumes "LENGTH('a) \<le> 64" and "v \<noteq> 0"
  shows "unat (ucast (floor_log2 (ucast v) + 1) :: u32) = floorlog 2 (unat v)"
proof -
  have pos: "0 < unat v"
    using assms(2) by (simp add: unat_gt_0)
  then have ge1: "1 \<le> floorlog 2 (unat v)"
    by (simp add: floorlog_def)
  have le64: "floorlog 2 (unat v) \<le> 64"
    using floorlog_unat_le_64 [of "ucast v"] assms(1) by (simp add: unat_ucast_same)
  have "unat (ucast v :: u64) = unat v"
    using assms(1) by (rule unat_ucast_same)
  moreover from this pos have "(ucast v :: u64) \<noteq> 0"
    by (metis less_numeral_extra(3) unat_0)
  ultimately have "unat (floor_log2 (ucast v)) = floorlog 2 (unat v) - 1"
    by (simp add: unat_floor_log2)
  then have "unat (floor_log2 (ucast v) + 1) = floorlog 2 (unat v)"
    using ge1 le64 by (simp add: unat_word_ariths)
  then show ?thesis
    using le64 by (simp add: unsigned_ucast_eq take_bit_nat_eq_self)
qed

lemma encode_unary:
  fixes n :: u32
  assumes "0 < unat n" and "unat n \<le> 64"
  shows "unat (ucast (floor_log2 (ucast n)) :: u32) = floorlog 2 (unat n) - 1"
proof -
  have "unat (ucast n :: u64) = unat n"
    by (simp add: unat_ucast_same)
  moreover from this assms(1) have "(ucast n :: u64) \<noteq> 0"
    by (metis less_numeral_extra(3) unat_0)
  ultimately have "unat (floor_log2 (ucast n)) = floorlog 2 (unat n) - 1"
    by (simp add: unat_floor_log2)
  moreover have "floorlog 2 (unat n) \<le> 7"
    using assms(2) by (rule floorlog_2_le_7)
  ultimately show ?thesis
    by (simp add: unsigned_ucast_eq take_bit_nat_eq_self)
qed


lemma codeword_bits_pos: "0 < codeword_bits N"
  by (simp add: codeword_bits_def Let_def)

lemma encode_step_returns:
  fixes v :: "'a::len word"
  assumes len: "LENGTH('a) \<le> 64" and nz: "v \<noteq> 0"
    and fits: "(unat into + codeword_bits (unat v)) div 8 + 8 \<le> length mem"
    and nowrap: "unat into + codeword_bits (unat v) < 2 ^ 64"
  shows "\<exists>mem'. encode_step (mem, into) v = Inr (mem', into + of_nat (codeword_bits (unat v)))
            \<and> length mem' = length mem"
proof -
  let ?n = "ucast (floor_log2 (ucast v) + 1) :: u32"
  let ?unary = "ucast (floor_log2 (ucast ?n)) :: u32"
  define L where "L = floorlog 2 (unat v)"
  define u where "u = floorlog 2 L - 1"
  have n: "unat ?n = L"
    unfolding L_def using len nz by (rule encode_n)
  have "0 < unat v"
    using nz by (simp add: unat_gt_0)
  then have L1: "1 \<le> L"
    by (simp add: L_def floorlog_def)
  have "L \<le> 64"
    using floorlog_unat_le_64 [of "ucast v"] len by (simp add: L_def unat_ucast_same)
  then have n64: "unat ?n \<le> 64"
    using n by simp
  have n0: "0 < unat ?n"
    using n L1 by simp
  have un: "unat ?unary = u"
    unfolding u_def n [symmetric] using n0 n64 by (rule encode_unary)
  have u6: "u \<le> 6"
    using floorlog_2_le_7 [OF \<open>L \<le> 64\<close>] by (simp add: u_def)
  have bits: "codeword_bits (unat v) = 2 * u + 1 + (L - 1)"
    by (simp add: codeword_bits_def Let_def L_def u_def)
  have c1: "(ucast ?unary :: u64) = of_nat u"
    using un by (metis of_nat_unat)
  have "unat (?unary + 1) = u + 1"
    using un u6 by (simp add: unat_word_ariths)
  then have c2: "(ucast (?unary + 1) :: u64) = of_nat (u + 1)"
    by (metis of_nat_unat)
  have "?n \<noteq> 0"
    using n L1 by (metis not_one_le_zero unat_eq_zero)
  then have "unat (?n - 1) = L - 1"
    using n by (simp add: unat_minus_one)
  then have c3: "(ucast (?n - 1) :: u64) = of_nat (L - 1)"
    by (metis of_nat_unat)
  have step: "encode_step (mem, into) v =
      bind_ub (or64 mem (unat ((into + ucast ?unary) div 8))
        (push_bit (unat ((into + ucast ?unary) mod 8))
           (ucast (push_bit 1 (?n AND NOT (push_bit (unat ?unary) 1)) + 1)))) (\<lambda>encoded.
      bind_ub (or64 encoded (unat ((into + ucast ?unary + ucast (?unary + 1)) div 8))
        (push_bit (unat ((into + ucast ?unary + ucast (?unary + 1)) mod 8))
           (ucast v AND NOT (push_bit (unat (?n - 1)) 1)))) (\<lambda>encoded.
      Inr (encoded, into + ucast ?unary + ucast (?unary + 1) + ucast (?n - 1))))"
    by (simp only: encode_step_def Let_def prod.case)
  have a1: "unat (into + of_nat u) = unat into + u"
    using nowrap bits by (simp add: unat_word_ariths unat_of_nat)
  have a2: "unat (into + of_nat u + of_nat (u + 1)) = unat into + u + (u + 1)"
    using nowrap bits a1 by (simp add: unat_word_ariths unat_of_nat)
  have o1: "unat ((into + of_nat u) div 8) + 8 \<le> length mem"
  proof -
    have "unat ((into + of_nat u) div 8) = (unat into + u) div 8"
      using a1 by (simp add: unat_div)
    also have "\<dots> \<le> (unat into + codeword_bits (unat v)) div 8"
      by (rule div_le_mono) (simp add: bits)
    finally show ?thesis
      using fits by simp
  qed
  have o2: "unat ((into + of_nat u + of_nat (u + 1)) div 8) + 8 \<le> length mem"
  proof -
    have "unat ((into + of_nat u + of_nat (u + 1)) div 8) = (unat into + u + (u + 1)) div 8"
      using a2 by (simp add: unat_div)
    also have "\<dots> \<le> (unat into + codeword_bits (unat v)) div 8"
      by (rule div_le_mono) (simp add: bits)
    finally show ?thesis
      using fits by simp
  qed
  from or64_in_bounds [OF o1] obtain mem1 where
    m1: "or64 mem (unat ((into + of_nat u) div 8))
           (push_bit (unat ((into + of_nat u) mod 8))
              (ucast (push_bit 1 (?n AND NOT (push_bit (unat ?unary) 1)) + 1))) = Inr mem1"
    and l1: "length mem1 = length mem"
    by blast
  from or64_in_bounds [of _ mem1] o2 l1 obtain mem2 where
    m2: "or64 mem1 (unat ((into + of_nat u + of_nat (u + 1)) div 8))
           (push_bit (unat ((into + of_nat u + of_nat (u + 1)) mod 8))
              (ucast v AND NOT (push_bit (unat (?n - 1)) 1))) = Inr mem2"
    and l2: "length mem2 = length mem1"
    by (metis (no_types))
  have sum: "into + of_nat u + of_nat (u + 1) + of_nat (L - 1) = into + of_nat (codeword_bits (unat v))"
    by (simp add: bits)
  have "encode_step (mem, into) v = Inr (mem2, into + of_nat (codeword_bits (unat v)))"
    unfolding step c1 c2 c3 m1 bind_ub_Inr m2 sum ..
  with l1 l2 show ?thesis
    by simp
qed


lemma total_bits_Nil [simp]: "total_bits [] = 0"
  by (simp add: total_bits_def)

lemma total_bits_Cons [simp]: "total_bits (v # vs) = codeword_bits (unat v) + total_bits vs"
  by (simp add: total_bits_def)

lemma encode_loop_returns:
  fixes S :: "'a::len word list"
  assumes len: "LENGTH('a) \<le> 64" and valid: "\<forall>v\<in>set S. v \<noteq> 0"
    and fits: "S \<noteq> [] \<Longrightarrow> (unat into + total_bits S) div 8 + 8 \<le> length mem"
    and nowrap: "unat into + total_bits S < 2 ^ 64"
  shows "\<exists>mem'. encode_loop (mem, into) S = Inr (mem', into + of_nat (total_bits S))
            \<and> length mem' = length mem"
  using valid fits nowrap
proof (induction S arbitrary: mem into)
  case Nil
  then show ?case by simp
next
  case (Cons v vs)
  let ?b = "codeword_bits (unat v)"
  have nz: "v \<noteq> 0"
    using Cons.prems(1) by simp
  have "(unat into + ?b) div 8 \<le> (unat into + total_bits (v # vs)) div 8"
    by (rule div_le_mono) simp
  then have fits1: "(unat into + ?b) div 8 + 8 \<le> length mem"
    using Cons.prems(2) by simp
  have nowrap1: "unat into + ?b < 2 ^ 64"
    using Cons.prems(3) by simp
  from encode_step_returns [OF len nz fits1 nowrap1] obtain mem1 where
    step: "encode_step (mem, into) v = Inr (mem1, into + of_nat ?b)"
    and l1: "length mem1 = length mem"
    by blast
  have into1: "unat (into + of_nat ?b) = unat into + ?b"
    using nowrap1 by (simp add: unat_word_ariths unat_of_nat)
  have "\<exists>mem'. encode_loop (mem1, into + of_nat ?b) vs
          = Inr (mem', into + of_nat ?b + of_nat (total_bits vs)) \<and> length mem' = length mem1"
  proof (rule Cons.IH)
    show "\<forall>v\<in>set vs. v \<noteq> 0"
      using Cons.prems(1) by simp
    show "(unat (into + of_nat ?b) + total_bits vs) div 8 + 8 \<le> length mem1"
      using Cons.prems(2) l1 into1 by (simp add: add.assoc)
    show "unat (into + of_nat ?b) + total_bits vs < 2 ^ 64"
      using Cons.prems(3) into1 by simp
  qed
  then show ?case
    using step l1 by (simp add: add.assoc)
qed

lemma encode_returns:
  fixes S :: "'a::len word list"
  assumes len: "LENGTH('a) \<le> 64" and valid: "\<forall>v\<in>set S. v \<noteq> 0"
    and cap: "cap \<le> length mem"
    and fits: "S \<noteq> [] \<Longrightarrow> total_bits S div 8 + 8 \<le> length mem"
    and nowrap: "total_bits S + 7 < 2 ^ 64"
  shows "\<exists>mem' r. encode mem cap S = Inr (mem', r) \<and> unat r = (total_bits S + 7) div 8
            \<and> length mem' = length mem"
proof -
  let ?m0 = "replicate cap 0 @ drop cap mem"
  have l0: "length ?m0 = length mem"
    using cap by simp
  have "\<exists>mem'. encode_loop (?m0, 0) S = Inr (mem', 0 + of_nat (total_bits S))
          \<and> length mem' = length ?m0"
    using len valid
  proof (rule encode_loop_returns)
    show "(unat (0 :: u64) + total_bits S) div 8 + 8 \<le> length ?m0" if "S \<noteq> []"
      using fits [OF that] l0 by simp
    show "unat (0 :: u64) + total_bits S < 2 ^ 64"
      using nowrap by simp
  qed
  then obtain mem' where
    loop: "encode_loop (?m0, 0) S = Inr (mem', of_nat (total_bits S))"
    and l': "length mem' = length mem"
    using l0 by auto
  have "unat (of_nat (total_bits S) + 7 :: u64) = total_bits S + 7"
    using nowrap by (simp add: unat_word_ariths unat_of_nat)
  then have "unat ((of_nat (total_bits S) + 7) div 8 :: u64) = (total_bits S + 7) div 8"
    by (simp add: unat_div)
  then show ?thesis
    using cap loop l' by (simp add: encode_def memset0_def)
qed

lemma codeword_bits_log:
  assumes "0 < N"
  shows "codeword_bits N
    = 2 * nat \<lfloor>log 2 (real (nat \<lfloor>log 2 (real N)\<rfloor> + 1))\<rfloor> + nat \<lfloor>log 2 (real N)\<rfloor> + 1"
proof -
  have L: "floorlog 2 N = nat \<lfloor>log 2 (real N)\<rfloor> + 1"
    using assms by (simp add: floorlog_def)
  have "floorlog 2 (floorlog 2 N) - 1 = nat \<lfloor>log 2 (real (floorlog 2 N))\<rfloor>"
    by (rule floorlog_minus_1) (simp add: L)
  then show ?thesis
    by (simp add: codeword_bits_def Let_def L)
qed

text \<open>
  A zero element. The step of the encoder uses an element \<open>v\<close> in two places only: in
  \<open>floor_log2 (ucast v)\<close> and in the value field \<open>ucast v AND NOT (2 ^ (n - 1))\<close>. Two
  elements that agree in both are encoded alike, and for the zero element such a second
  element is the nonzero integer \<open>2 ^ k\<close> with \<open>k = floor_log2 0\<close>: the entries of the table
  for nonzero bytes make \<open>floor_log2 (2 ^ k) = k\<close>, and the value field of \<open>2 ^ k\<close> is empty
  of set bits as that of 0 is. Where \<open>2 ^ k\<close> does not fit the element type it is 0 itself.
\<close>

lemma encode_step_cong:
  fixes v w :: "'a::len word"
  assumes "floor_log2 (ucast v) = floor_log2 (ucast w)"
    and "(ucast v :: u64) AND NOT (push_bit (unat ((ucast (floor_log2 (ucast w) + 1) :: u32) - 1)) 1)
       = (ucast w :: u64) AND NOT (push_bit (unat ((ucast (floor_log2 (ucast w) + 1) :: u32) - 1)) 1)"
  shows "encode_step st v = encode_step st w"
  unfolding encode_step_def Let_def assms(1) assms(2) ..

lemma unat_floor_log2_zero_less: "unat (floor_log2 0) < 256"
proof -
  have "unat (ucast (floor_log2_answer ! 0) :: u64) = unat (floor_log2_answer ! 0)"
    by (simp add: unat_ucast_same)
  moreover have "unat (floor_log2_answer ! 0) < 2 ^ 8"
    using unsigned_less [of "floor_log2_answer ! 0", where 'a = nat] by simp
  ultimately show ?thesis
    by (simp add: floor_log2_zero)
qed

lemma unat_power_of_2: "k < LENGTH('a::len) \<Longrightarrow> unat (2 ^ k :: 'a word) = 2 ^ k"
proof -
  assume "k < LENGTH('a)"
  then have "(2 :: nat) ^ k < 2 ^ LENGTH('a)"
    by (intro power_strict_increasing) simp_all
  moreover have "(2 ^ k :: 'a word) = of_nat (2 ^ k)"
    by simp
  ultimately show ?thesis
    by (simp only: unat_of_nat mod_less)
qed

lemma floor_log2_power_of_2:
  assumes "k < 64"
  shows "unat (floor_log2 (2 ^ k)) = k"
proof -
  have u: "unat (2 ^ k :: u64) = 2 ^ k"
    using assms by (simp add: unat_power_of_2)
  then have "(2 ^ k :: u64) \<noteq> 0"
    by (metis power_not_zero unat_0 zero_neq_numeral)
  then have "unat (floor_log2 (2 ^ k)) = floorlog 2 (unat (2 ^ k :: u64)) - 1"
    by (rule unat_floor_log2)
  moreover have "floorlog 2 (2 ^ k) = k + 1"
    using floorlog_power [of 1 2 k] by (simp add: floorlog_def)
  ultimately show ?thesis
    by (simp only: u add_diff_cancel_right')
qed

lemma encode_step_zero:
  "encode_step st (0 :: 'a::len word) = encode_step st (2 ^ unat (floor_log2 0) :: 'a word)"
proof (cases "(ucast (2 ^ unat (floor_log2 0) :: 'a word) :: u64) = 0")
  case True
  show ?thesis
    by (rule encode_step_cong) (simp_all add: True)
next
  case False
  define k where "k = unat (floor_log2 0)"
  let ?w = "2 ^ k :: 'a word"
  from False have w: "(ucast ?w :: u64) \<noteq> 0"
    by (simp add: k_def)
  have "?w \<noteq> 0"
  proof
    assume "?w = 0"
    then have "(ucast ?w :: u64) = 0"
      by (simp only: ucast_0)
    with w show False ..
  qed
  then have kl: "k < LENGTH('a)"
    by (simp add: not_le)
  then have uw: "unat ?w = 2 ^ k"
    by (rule unat_power_of_2)
  have k64: "k < 64"
  proof (rule ccontr)
    assume "\<not> k < 64"
    then have "(2 :: nat) ^ 64 dvd 2 ^ k"
      by (intro le_imp_power_dvd) simp
    then have "unat (ucast ?w :: u64) = 0"
      by (simp add: unsigned_ucast_eq uw take_bit_eq_mod mod_eq_0_iff_dvd)
    with w show False
      by (simp add: unat_eq_0)
  qed
  have "unat (ucast ?w :: u64) = 2 ^ k"
    using k64 by (simp add: unsigned_ucast_eq uw take_bit_nat_eq_self)
  then have cw: "(ucast ?w :: u64) = 2 ^ k"
    using k64 by (simp add: word_unat_eq_iff unat_power_of_2)
  have fl: "floor_log2 (2 ^ k) = floor_log2 0"
    using floor_log2_power_of_2 [OF k64] by (simp add: word_unat_eq_iff k_def)
  have "unat (floor_log2 0 + 1) = k + 1"
    using k64 by (simp add: unat_word_ariths k_def)
  then have n: "unat (ucast (floor_log2 0 + 1) :: u32) = k + 1"
    using k64 by (simp add: unsigned_ucast_eq take_bit_nat_eq_self)
  then have "(ucast (floor_log2 0 + 1) :: u32) \<noteq> 0"
    by (metis Suc_eq_plus1 nat.distinct(1) unat_0)
  then have n1: "unat ((ucast (floor_log2 0 + 1) :: u32) - 1) = k"
    using n by (simp add: unat_minus_one)
  have "encode_step st (0 :: 'a word) = encode_step st ?w"
  proof (rule encode_step_cong)
    show "floor_log2 (ucast (0 :: 'a word)) = floor_log2 (ucast ?w)"
      by (simp only: cw fl ucast_0)
    show "(ucast (0 :: 'a word) :: u64)
          AND NOT (push_bit (unat ((ucast (floor_log2 (ucast ?w) + 1) :: u32) - 1)) 1)
        = (ucast ?w :: u64)
          AND NOT (push_bit (unat ((ucast (floor_log2 (ucast ?w) + 1) :: u32) - 1)) 1)"
      unfolding cw fl n1 by (simp add: push_bit_eq_mult)
  qed
  then show ?thesis
    by (simp only: k_def)
qed

lemma encode_loop_zero:
  "encode_loop st (xs @ 0 # ys)
     = encode_loop st (xs @ (2 ^ unat (floor_log2 0) :: 'a::len word) # ys)"
  by (induction xs arbitrary: st) (simp_all add: encode_step_zero)

section \<open>The decoder: the static counter and the number of integers produced\<close>

lemmas decoder_stage_defs =
  fetch_def load64_def shr64_def shl64_def int_one_shl_def Let_def bind_ub_def

lemma scan_unary_total:
  "scan_unary mem (s\<lparr>total := t\<rparr>) = map_sum id (\<lambda>s'. s'\<lparr>total := t\<rparr>) (scan_unary mem s)"
  by (simp add: scan_unary_def decoder_stage_defs)

lemma read_length_total:
  "read_length mem (s\<lparr>total := t\<rparr>)
     = map_sum id (\<lambda>(s', binary). (s'\<lparr>total := t\<rparr>, binary)) (read_length mem s)"
  by (simp add: read_length_def decoder_stage_defs)

lemma read_value_total:
  "read_value mem (s\<lparr>total := t\<rparr>) binary
     = map_sum id (\<lambda>s'. s'\<lparr>total := t\<rparr>) (read_value mem s binary)"
  by (simp add: read_value_def decoder_stage_defs)

lemma decode_step_total:
  "decode_step mem (s\<lparr>total := t\<rparr>)
     = map_sum id (\<lambda>s'. s'\<lparr>total := t + 1\<rparr>) (decode_step mem s)"
proof -
  have "decode_step mem (s\<lparr>total := t\<rparr>)
      = bind_ub (scan_unary mem (s\<lparr>total := t + 1\<rparr>)) (\<lambda>s.
        bind_ub (read_length mem s) (\<lambda>(s, binary). read_value mem s binary))"
    by (simp add: decode_step_def)
  also have "\<dots> = map_sum id (\<lambda>s'. s'\<lparr>total := t + 1\<rparr>)
      (bind_ub (scan_unary mem (s\<lparr>total := total s + 1\<rparr>)) (\<lambda>s.
        bind_ub (read_length mem s) (\<lambda>(s, binary). read_value mem s binary)))"
    using scan_unary_total [where mem = mem and s = "s\<lparr>total := total s + 1\<rparr>" and t = "t + 1"]
    by (auto simp: bind_ub_def read_length_total read_value_total split: sum.splits)
  also have "\<dots> = map_sum id (\<lambda>s'. s'\<lparr>total := t + 1\<rparr>) (decode_step mem s)"
    by (simp add: decode_step_def)
  finally show ?thesis .
qed

lemma decode_loop_total:
  "decode_loop mem k (s\<lparr>total := t\<rparr>)
     = map_sum id (\<lambda>s'. s'\<lparr>total := t + of_nat k\<rparr>) (decode_loop mem k s)"
proof (induction k arbitrary: s t)
  case 0
  show ?case by simp
next
  case (Suc k)
  show ?case
  proof (cases "decode_step mem s")
    case (Inl e)
    then show ?thesis
      by (simp add: decode_step_total)
  next
    case (Inr s')
    then show ?thesis
      using Suc.IH [where s = s' and t = "t + 1"] by (simp add: decode_step_total ac_simps)
  qed
qed

lemma decode_total:
  "map_sum id fst (decode t1 n src len :: undefined_behaviour + 'a::len word list \<times> u32)
     = map_sum id fst (decode t2 n src len :: undefined_behaviour + 'a word list \<times> u32)"
proof (cases "load64 src 0")
  case (Inl e)
  then show ?thesis
    by (simp add: decode_def)
next
  case (Inr w)
  let ?s = "\<lparr>decoded = [] :: 'a word list, bits_used = 0, unary = 0, source = 0, value = w, total = 0\<rparr>"
  have "map_sum id fst (decode t n src len :: undefined_behaviour + 'a word list \<times> u32)
      = map_sum id decoded (decode_loop src n ?s)" for t
    using Inr decode_loop_total [where mem = src and k = n and s = ?s and t = t]
    by (cases "decode_loop src n ?s") (simp_all add: decode_def)
  then show ?thesis
    by simp
qed


lemma scan_unary_decoded: "scan_unary mem s = Inr s' \<Longrightarrow> decoded s' = decoded s"
  by (auto simp: scan_unary_def decoder_stage_defs split: if_splits sum.splits)

lemma read_length_decoded: "read_length mem s = Inr (s', binary) \<Longrightarrow> decoded s' = decoded s"
  by (auto simp: read_length_def decoder_stage_defs split: if_splits sum.splits)

lemma read_value_decoded:
  "read_value mem s binary = Inr s' \<Longrightarrow> length (decoded s') = Suc (length (decoded s))"
  by (auto simp: read_value_def decoder_stage_defs split: if_splits sum.splits)

lemma decode_step_decoded:
  assumes "decode_step mem s = Inr s'"
  shows "length (decoded s') = Suc (length (decoded s))"
proof -
  from assms obtain s1 s2 binary where
    "scan_unary mem (s\<lparr>total := total s + 1\<rparr>) = Inr s1"
    "read_length mem s1 = Inr (s2, binary)"
    "read_value mem s2 binary = Inr s'"
    by (auto simp: decode_step_def bind_ub_def split: sum.splits)
  then show ?thesis
    using scan_unary_decoded read_length_decoded read_value_decoded
    by (metis decoder.select_convs(1) decoder.surjective decoder.update_convs(6))
qed

lemma decode_loop_decoded:
  "decode_loop mem k s = Inr s' \<Longrightarrow> length (decoded s') = length (decoded s) + k"
proof (induction k arbitrary: s)
  case 0
  then show ?case by simp
next
  case (Suc k)
  then obtain s1 where "decode_step mem s = Inr s1" and "decode_loop mem k s1 = Inr s'"
    by (auto simp: bind_ub_def split: sum.splits)
  then show ?case
    using Suc.IH [of s1] decode_step_decoded [of mem s s1] by simp
qed

lemma decode_length:
  "decode t n mem len = Inr (xs, t') \<Longrightarrow> length xs = n"
  by (auto simp: decode_def bind_ub_def split: sum.splits dest: decode_loop_decoded)

section \<open>The round trip\<close>

text \<open>
  C1. The claim: for every sequence \<open>S\<close> of integers in \<open>[1, 2^63 - 1]\<close>, decoding the buffer
  that \<^verbatim>\<open>encode\<close> produced for \<open>S\<close>, with the count \<open>|S|\<close>, gives \<open>S\<close> back. The code does
  not do that. For \<open>S = [2^30, 2^10, 2, 3]\<close> the codewords take \<open>39 + 17 + 4 + 4 = 64\<close> bits,
  so the stream is exactly the first 64-bit word and the one value bit of the last
  integer is bit 63 of that word. After the length field of the last codeword
  \<open>bits_used = 63\<close> and \<open>binary = 2\<close>; the test \<^verbatim>\<open>bits_used + binary > 64\<close> counts one bit more
  than the value field has (\<open>binary - 1\<close>) and sends the decoder into the branch for a
  value field that continues in the next word, which shifts the value bit out of its
  place. \<^verbatim>\<open>decode\<close> returns \<open>[2^30, 2^10, 2, 2]\<close>. The theorem evaluates both functions at this
  input, for 64-bit and for 32-bit elements.
\<close>

theorem roundtrip_fails_at_word_end:
  "encode (replicate 16 0) 16 [2 ^ 30, 2 ^ 10, 2, 3 :: 64 word]
     = Inr ([240, 1, 0, 0, 0, 28, 0, 162, 0, 0, 0, 0, 0, 0, 0, 0], 8)
   \<and> decode 0 4 [240, 1, 0, 0, 0, 28, 0, 162, 0, 0, 0, 0, 0, 0, 0, 0] 8
     = Inr ([2 ^ 30, 2 ^ 10, 2, 2 :: 64 word], 4)
   \<and> encode (replicate 16 0) 16 [2 ^ 30, 2 ^ 10, 2, 3 :: 32 word]
     = Inr ([240, 1, 0, 0, 0, 28, 0, 162, 0, 0, 0, 0, 0, 0, 0, 0], 8)
   \<and> decode 0 4 [240, 1, 0, 0, 0, 28, 0, 162, 0, 0, 0, 0, 0, 0, 0, 0] 8
     = Inr ([2 ^ 30, 2 ^ 10, 2, 2 :: 32 word], 4)"
  by code_simp

text \<open>
  C2. The claim: the round trip also holds when a field of a codeword lies across two
  consecutive 64-bit words. The code does not do that either. In \<open>[2^30, 2^30]\<close> the value
  field of the second integer occupies bits 48 to 77 of the stream; in
  \<open>[2^30, 2^10, 2, 1, 1, 3]\<close> the running total before the last integer is 62 bits and its
  length field occupies bits 63 and 64. In both the decoder has to go on to the second
  word, and \<^verbatim>\<open>value = *source++\<close> gives it the first word again: the read before the loop,
  \<^verbatim>\<open>value = *source\<close>, did not advance the pointer. \<^verbatim>\<open>decode\<close> returns \<open>[2^30, 2^30 + 496]\<close> and
  \<open>[2^30, 2^10, 2, 1, 1, 2]\<close>. The third input is the specification's own test: seven
  integers that fill the first word exactly, a running total of 64 bits, before the
  integer 1000; \<^verbatim>\<open>decode\<close> returns 16385 in its place.
\<close>

theorem roundtrip_fails_across_words:
  "encode (replicate 24 0) 24 [2 ^ 30, 2 ^ 30 :: 64 word]
     = Inr ([240, 1, 0, 0, 0, 248, 0, 0, 0, 0, 0, 0, 0, 0, 0, 0, 0, 0, 0, 0, 0, 0, 0, 0], 10)
   \<and> decode 0 2 [240, 1, 0, 0, 0, 248, 0, 0, 0, 0, 0, 0, 0, 0, 0, 0, 0, 0, 0, 0, 0, 0, 0, 0] 10
     = Inr ([2 ^ 30, 2 ^ 30 + 496 :: 64 word], 2)
   \<and> encode (replicate 24 0) 24 [2 ^ 30, 2 ^ 10, 2, 1, 1, 3 :: 64 word]
     = Inr ([240, 1, 0, 0, 0, 28, 0, 178, 2, 0, 0, 0, 0, 0, 0, 0, 0, 0, 0, 0, 0, 0, 0, 0], 9)
   \<and> decode 0 6 [240, 1, 0, 0, 0, 28, 0, 178, 2, 0, 0, 0, 0, 0, 0, 0, 0, 0, 0, 0, 0, 0, 0, 0] 9
     = Inr ([2 ^ 30, 2 ^ 10, 2, 1, 1, 2 :: 64 word], 6)
   \<and> encode (replicate 24 0) 24 [2 ^ 30, 2 ^ 10, 2, 1, 1, 1, 1, 1000 :: 64 word]
     = Inr ([240, 1, 0, 0, 0, 28, 0, 242, 40, 244, 0, 0, 0, 0, 0, 0, 0, 0, 0, 0, 0, 0, 0, 0], 10)
   \<and> decode 0 8 [240, 1, 0, 0, 0, 28, 0, 242, 40, 244, 0, 0, 0, 0, 0, 0, 0, 0, 0, 0, 0, 0, 0, 0] 10
     = Inr ([2 ^ 30, 2 ^ 10, 2, 1, 1, 1, 1, 16385 :: 64 word], 8)"
  by code_simp

text \<open>
  A remark on elements wider than the window of the encoder. The value field is shifted
  by up to seven bits inside one 64-bit word before it is written, so of a value field of
  more than 57 bits the highest bits can fall off the word. With 64-bit elements the two
  sequences below, both within \<open>[1, 2^63 - 1]\<close>, get the same buffer and the same length:
  no decoder can tell them apart. Elements of at most 32 bits are not affected.
\<close>

lemma encode_drops_high_value_bits:
  "encode (replicate 24 0) 24 [1, 2 ^ 62 + 2 ^ 61 :: 64 word]
     = encode (replicate 24 0) 24 [1, 2 ^ 62 :: 64 word]"
  by code_simp

section \<open>Codeword and stream lengths\<close>

text \<open>
  C3. For every integer \<open>N \<ge> 1\<close> (here \<open>N = unat v\<close>, for an element type of at most 64
  bits), one iteration of the encoding loop returns, given that the two words it writes
  lie inside the destination object and the cursor does not leave 64 bits, and moves the
  cursor \<open>into\<close> forward by exactly \<open>2\<lfloor>log2(\<lfloor>log2 N\<rfloor> + 1)\<rfloor> + \<lfloor>log2 N\<rfloor> + 1\<close> bits, that is by
  \<open>2u + 1 + (L - 1)\<close> with \<open>L\<close> the bit-length of \<open>N\<close> and \<open>u = \<lfloor>log2 L\<rfloor>\<close>; for \<open>N = 1\<close> it is a
  single bit.
\<close>

theorem encode_step_codeword_length:
  fixes v :: "'a::len word"
  assumes "LENGTH('a) \<le> 64" and "v \<noteq> 0"
    and "(unat into + codeword_bits (unat v)) div 8 + 8 \<le> length mem"
    and "unat into + codeword_bits (unat v) < 2 ^ 64"
  shows "\<exists>mem' into'. encode_step (mem, into) v = Inr (mem', into')
           \<and> unat into' = unat into
                + (2 * nat \<lfloor>log 2 (real (nat \<lfloor>log 2 (real (unat v))\<rfloor> + 1))\<rfloor>
                   + nat \<lfloor>log 2 (real (unat v))\<rfloor> + 1)
           \<and> unat into' = unat into
                + (2 * (floorlog 2 (floorlog 2 (unat v)) - 1) + 1 + (floorlog 2 (unat v) - 1))
           \<and> (v = 1 \<longrightarrow> unat into' = unat into + 1)"
proof -
  define b where "b = codeword_bits (unat v)"
  define into' where "into' = into + of_nat b"
  from encode_step_returns [OF assms] obtain mem' where
    step: "encode_step (mem, into) v = Inr (mem', into')"
    unfolding b_def into'_def by blast
  have pos: "0 < unat v"
    using assms(2) by (simp add: unat_gt_0)
  have adv: "unat into' = unat into + b"
    using assms(4) by (simp add: into'_def b_def unat_word_ariths unat_of_nat)
  have f1: "b = 2 * nat \<lfloor>log 2 (real (nat \<lfloor>log 2 (real (unat v))\<rfloor> + 1))\<rfloor>
      + nat \<lfloor>log 2 (real (unat v))\<rfloor> + 1"
    unfolding b_def using pos by (rule codeword_bits_log)
  have f2: "b = 2 * (floorlog 2 (floorlog 2 (unat v)) - 1) + 1 + (floorlog 2 (unat v) - 1)"
    by (simp add: b_def codeword_bits_def Let_def)
  have f3: "b = 1" if "v = 1"
    using that by (simp add: b_def codeword_bits_def Let_def floorlog_def)
  have c1: "unat into' = unat into
      + (2 * nat \<lfloor>log 2 (real (nat \<lfloor>log 2 (real (unat v))\<rfloor> + 1))\<rfloor>
         + nat \<lfloor>log 2 (real (unat v))\<rfloor> + 1)"
    using adv f1 by (simp only:)
  have c2: "unat into' = unat into
      + (2 * (floorlog 2 (floorlog 2 (unat v)) - 1) + 1 + (floorlog 2 (unat v) - 1))"
    using adv f2 by (simp only:)
  have c3: "v = 1 \<longrightarrow> unat into' = unat into + 1"
    using adv f3 by simp
  from step c1 c2 c3 show ?thesis
    by blast
qed

theorem encode_step_codeword_length_witness:
  "\<exists>mem' into'. encode_step (replicate 16 0, 5) (1000 :: 64 word) = Inr (mem', into')
           \<and> unat into' = unat (5 :: u64)
                + (2 * nat \<lfloor>log 2 (real (nat \<lfloor>log 2 (real (unat (1000 :: 64 word)))\<rfloor> + 1))\<rfloor>
                   + nat \<lfloor>log 2 (real (unat (1000 :: 64 word)))\<rfloor> + 1)
           \<and> unat into' = unat (5 :: u64)
                + (2 * (floorlog 2 (floorlog 2 (unat (1000 :: 64 word))) - 1) + 1
                   + (floorlog 2 (unat (1000 :: 64 word)) - 1))"
proof -
  have h1: "LENGTH(64) \<le> 64"
    by simp
  have h2: "(1000 :: 64 word) \<noteq> 0"
    by simp
  have cb: "codeword_bits (unat (1000 :: 64 word)) = 16"
    by code_simp
  have h3: "(unat (5 :: u64) + codeword_bits (unat (1000 :: 64 word))) div 8 + 8
      \<le> length (replicate 16 (0 :: u8))"
    unfolding cb by simp
  have h4: "unat (5 :: u64) + codeword_bits (unat (1000 :: 64 word)) < 2 ^ 64"
    unfolding cb by simp
  from encode_step_codeword_length [OF h1 h2 h3 h4] show ?thesis
    by blast
qed

text \<open>
  C4. For every sequence \<open>S\<close> of nonzero integers \<^verbatim>\<open>encode\<close> returns
  \<open>\<lceil>(sum of the codeword lengths of S) / 8\<rceil>\<close>, and 0 for the empty sequence. The
  hypotheses are those of a call with defined behaviour: the capacity lies inside the
  destination object, the object extends eight bytes beyond the byte the last bit falls
  into (the encoder writes whole words), and the number of bits fits the 64-bit cursor.
\<close>

theorem encode_returns_byte_length:
  fixes S :: "'a::len word list"
  assumes "LENGTH('a) \<le> 64" and "\<forall>v\<in>set S. v \<noteq> 0"
    and "cap \<le> length mem"
    and "S \<noteq> [] \<Longrightarrow> total_bits S div 8 + 8 \<le> length mem"
    and "total_bits S + 7 < 2 ^ 64"
  shows "\<exists>mem' r. encode mem cap S = Inr (mem', r) \<and> unat r = (total_bits S + 7) div 8
           \<and> (S = [] \<longrightarrow> r = 0)"
proof -
  from encode_returns [OF assms] obtain mem' r where
    r: "encode mem cap S = Inr (mem', r)" "unat r = (total_bits S + 7) div 8"
    by blast
  then have "r = 0" if "S = []"
    using that by (simp add: unat_eq_0 [symmetric])
  with r show ?thesis
    by blast
qed

theorem encode_returns_byte_length_witness:
  "\<exists>mem' r. encode (replicate 16 0xFF) 16 [1, 2, 3 :: 64 word] = Inr (mem', r)
      \<and> unat r = (total_bits [1, 2, 3 :: 64 word] + 7) div 8 \<and> unat r = 2"
proof -
  have tb: "total_bits [1, 2, 3 :: 64 word] = 9"
    by code_simp
  have h1: "LENGTH(64) \<le> 64"
    by simp
  have h2: "\<forall>v\<in>set [1, 2, 3 :: 64 word]. v \<noteq> 0"
    by simp
  have h3: "16 \<le> length (replicate 16 (0xFF :: u8))"
    by simp
  have h4: "total_bits [1, 2, 3 :: 64 word] div 8 + 8 \<le> length (replicate 16 (0xFF :: u8))"
    unfolding tb by simp
  have h5: "total_bits [1, 2, 3 :: 64 word] + 7 < 2 ^ 64"
    unfolding tb by simp
  from encode_returns_byte_length [OF h1 h2 h3 h4 h5] obtain mem' r where
    "encode (replicate 16 0xFF) 16 [1, 2, 3 :: 64 word] = Inr (mem', r)"
    "unat r = (total_bits [1, 2, 3 :: 64 word] + 7) div 8"
    by blast
  then show ?thesis
    using tb by auto
qed

section \<open>The worked example\<close>

text \<open>
  C5. For \<open>S = [1, 2, 3]\<close> the encoder writes the bit stream \<open>1 | 0 10 0 | 0 10 1\<close>, first
  bit first: the integer 1 is the single bit 1; the integer 2 is one unary zero bit, the
  two-bit length field (its terminator bit 1, then the low bit 0 of \<open>L = 2\<close>) and the value
  bit 0; the integer 3 has the same header and the value bit 1. The cursor stands at bit
  1, 5 and 9 after the three codewords, the stream is the bytes \<open>0x45, 0x01\<close>, \<^verbatim>\<open>encode\<close>
  returns 2, and \<^verbatim>\<open>decode\<close> of that buffer with count 3 returns \<open>[1, 2, 3]\<close>.
\<close>

theorem example_1_2_3:
  "encode (replicate 16 0xFF) 16 [1, 2, 3 :: 64 word]
     = Inr ([0x45, 0x01, 0, 0, 0, 0, 0, 0, 0, 0, 0, 0, 0, 0, 0, 0], 2)
   \<and> stream_bits [0x45, 0x01, 0, 0, 0, 0, 0, 0, 0, 0, 0, 0, 0, 0, 0, 0] 9
     = [True] @ [False, True, False, False] @ [False, True, False, True]
   \<and> decode 0 3 [0x45, 0x01, 0, 0, 0, 0, 0, 0, 0, 0, 0, 0, 0, 0, 0, 0] 2
     = Inr ([1, 2, 3 :: 64 word], 3)
   \<and> encode_loop (replicate 16 0, 0) [1 :: 64 word]
     = Inr ([0x01, 0, 0, 0, 0, 0, 0, 0, 0, 0, 0, 0, 0, 0, 0, 0], 1)
   \<and> encode_loop (replicate 16 0, 0) [1, 2 :: 64 word]
     = Inr ([0x05, 0, 0, 0, 0, 0, 0, 0, 0, 0, 0, 0, 0, 0, 0, 0], 5)
   \<and> encode_loop (replicate 16 0, 0) [1, 2, 3 :: 64 word]
     = Inr ([0x45, 0x01, 0, 0, 0, 0, 0, 0, 0, 0, 0, 0, 0, 0, 0, 0], 9)"
  by code_simp

section \<open>The error conditions of the specification\<close>

text \<open>
  C6. The claim: \<^verbatim>\<open>encode\<close> signals \<open>InvalidInput\<close> for a sequence that contains 0, before any
  bit-length computation. The code has no such check and no way to signal. For \<open>[0]\<close> it
  does not fail: it hands the zero to \<^verbatim>\<open>floor_log2\<close> and returns what it returns for the
  nonzero integer \<open>2 ^ k\<close>, \<open>k = floor_log2 0\<close>. The statement names no bytes and no value of
  \<open>floor_log2 0\<close>, so that it does not rest on the entry of the table for 0.
\<close>

theorem encode_zero_returns_normally:
  "\<not> isl (encode (replicate 24 0xFF) 24 [0 :: 64 word])
   \<and> encode (replicate 24 0xFF) 24 [0 :: 64 word]
     = encode (replicate 24 0xFF) 24 [2 ^ unat (floor_log2 0) :: 64 word]"
  by code_simp

text \<open>
  C6, as the code has it: \<^verbatim>\<open>encode\<close> has no check for zero and no error channel, and signals
  nothing. A zero goes through the same computation as any other integer: it is handed to
  \<^verbatim>\<open>floor_log2\<close> and encoded with the bit-length that comes back. For every input, the
  outcome of \<^verbatim>\<open>encode\<close> (the buffer, the returned length, or the point of undefined
  behaviour) is the outcome for the input in which the zero is replaced by the integer
  \<open>2 ^ k\<close>, \<open>k = floor_log2 0\<close>.
\<close>

theorem encode_zero_unchecked:
  "encode mem cap (xs @ 0 # ys)
     = encode mem cap (xs @ (2 ^ unat (floor_log2 0) :: 'a::len word) # ys)"
  by (simp add: encode_def encode_loop_zero)

text \<open>
  C7. The claim: \<^verbatim>\<open>decode\<close> reports \<open>TruncatedStream\<close> when \<^verbatim>\<open>integers_to_decode\<close> exceeds the
  codewords that lie within \<^verbatim>\<open>source_length\<close> bytes. The code does not: of the stream
  \<open>0x45, 0x01\<close> for \<open>[1, 2, 3]\<close> only two codewords lie within the first byte, and with
  \<^verbatim>\<open>source_length = 1\<close> and a count of 3 the decoder reads the second byte and returns all
  three integers.
\<close>

theorem decode_reads_past_source_length:
  "decode 0 3 [0x45, 0x01, 0, 0, 0, 0, 0, 0] 1 = Inr ([1, 2, 3 :: 64 word], 3)"
  by code_simp

text \<open>
  C7, as the code has it: \<^verbatim>\<open>decode\<close> has no error to report and does not look at
  \<^verbatim>\<open>source_length\<close>. Whenever a call returns (all its reads lie in the buffer object and
  all its shifts are defined), it has produced exactly \<^verbatim>\<open>integers_to_decode\<close> integers, and
  it returns the same for every other \<^verbatim>\<open>source_length\<close>.
\<close>

theorem decode_never_reports:
  assumes "decode t n mem len = Inr (xs :: 'a::len word list, t')"
  shows "length xs = n \<and> (\<forall>len'. decode t n mem len' = Inr (xs, t'))"
  using assms decode_length [OF assms] by (simp add: decode_def)

theorem decode_never_reports_witness:
  "length [1, 2, 3 :: 64 word] = 3
   \<and> (\<forall>len'. decode 0 3 [0x45, 0x01, 0, 0, 0, 0, 0, 0] len' = Inr ([1, 2, 3 :: 64 word], 3))"
proof -
  have "decode 0 3 [0x45, 0x01, 0, 0, 0, 0, 0, 0] 1 = Inr ([1, 2, 3 :: 64 word], 3)"
    by code_simp
  from decode_never_reports [OF this] show ?thesis .
qed

text \<open>
  C8. The claim: with a capacity smaller than the encoded length \<^verbatim>\<open>encode\<close> reports
  \<open>BufferTooSmall\<close> and writes nothing outside the capacity. The code does not: for
  \<open>[1, 2, 3]\<close>, which needs two bytes, and a capacity of 1 in a zeroed object of 16 bytes it
  returns 2 and has set byte 1 to \<open>0x01\<close>.
\<close>

theorem encode_writes_past_capacity:
  "encode (replicate 16 0) 1 [1, 2, 3 :: 64 word]
     = Inr ([0x45, 0x01, 0, 0, 0, 0, 0, 0, 0, 0, 0, 0, 0, 0, 0, 0], 2)"
  by code_simp

text \<open>
  C8, as the code has it: the capacity is used for the initial zero fill only. For every
  sequence of nonzero integers and every capacity smaller than the encoded length
  \<^verbatim>\<open>encode\<close> returns, without any report, the full encoded length \<open>\<lceil>bits / 8\<rceil>\<close>, which is
  larger than the capacity, provided the destination object itself extends eight bytes
  beyond the byte the last bit falls into.
\<close>

theorem encode_capacity_unchecked:
  fixes S :: "'a::len word list"
  assumes "LENGTH('a) \<le> 64" and "\<forall>v\<in>set S. v \<noteq> 0"
    and "cap < (total_bits S + 7) div 8"
    and "total_bits S div 8 + 8 \<le> length mem"
    and "total_bits S + 7 < 2 ^ 64"
  shows "\<exists>mem' r. encode mem cap S = Inr (mem', r) \<and> unat r = (total_bits S + 7) div 8
           \<and> cap < unat r"
proof -
  have "cap \<le> length mem"
    using assms(3,4) by linarith
  from encode_returns [OF assms(1,2) this assms(4,5)] show ?thesis
    using assms(3) by auto
qed

theorem encode_capacity_unchecked_witness:
  "\<exists>mem' r. encode (replicate 16 0) 1 [1, 2, 3 :: 64 word] = Inr (mem', r)
      \<and> unat r = (total_bits [1, 2, 3 :: 64 word] + 7) div 8 \<and> 1 < unat r"
proof -
  have tb: "total_bits [1, 2, 3 :: 64 word] = 9"
    by code_simp
  have h1: "LENGTH(64) \<le> 64"
    by simp
  have h2: "\<forall>v\<in>set [1, 2, 3 :: 64 word]. v \<noteq> 0"
    by simp
  have h3: "1 < (total_bits [1, 2, 3 :: 64 word] + 7) div 8"
    unfolding tb by simp
  have h4: "total_bits [1, 2, 3 :: 64 word] div 8 + 8 \<le> length (replicate 16 (0 :: u8))"
    unfolding tb by simp
  have h5: "total_bits [1, 2, 3 :: 64 word] + 7 < 2 ^ 64"
    unfolding tb by simp
  from encode_capacity_unchecked [OF h1 h2 h3 h4 h5] show ?thesis .
qed

section \<open>Determinism\<close>

text \<open>
  C9. \<^verbatim>\<open>encode\<close> and \<^verbatim>\<open>decode\<close> are functions of their arguments. \<^verbatim>\<open>encode\<close> has no state at
  all, and what the destination held before the call within the capacity does not matter:
  two destination objects of the same size that agree beyond the capacity give the same
  buffer and the same returned length. \<^verbatim>\<open>decode\<close> has one piece of state that outlives a
  call, the counter \<^verbatim>\<open>static uint32_t total\<close>; the integers it produces do not depend on
  the value of the counter, that is on how many integers earlier calls decoded.
\<close>

theorem codec_deterministic:
  "(length m1 = length m2 \<and> drop cap m1 = drop cap m2
      \<longrightarrow> encode m1 cap S = encode m2 cap (S :: 'a::len word list))
   \<and> map_sum id fst (decode t1 n src len :: undefined_behaviour + 'a word list \<times> u32)
     = map_sum id fst (decode t2 n src len :: undefined_behaviour + 'a word list \<times> u32)"
  using decode_total [of t1 n src len t2, where 'a = 'a]
  by (simp add: encode_def memset0_def)

theorem codec_deterministic_witness:
  "encode (replicate 16 0xFF) 16 [1, 2, 3 :: 64 word] = encode (replicate 16 0) 16 [1, 2, 3 :: 64 word]
   \<and> map_sum id fst (decode 0 3 [0x45, 0x01, 0, 0, 0, 0, 0, 0] 2 :: undefined_behaviour + 64 word list \<times> u32)
     = map_sum id fst (decode 15 3 [0x45, 0x01, 0, 0, 0, 0, 0, 0] 2 :: undefined_behaviour + 64 word list \<times> u32)"
  using codec_deterministic [of "replicate 16 0xFF" "replicate 16 0" 16 "[1, 2, 3 :: 64 word]"
      0 3 "[0x45, 0x01, 0, 0, 0, 0, 0, 0]" 2 15]
  by simp

text \<open>
  C10. The output of \<^verbatim>\<open>decode\<close> does not depend on \<^verbatim>\<open>source_length\<close>: for every buffer,
  every count and every value of the static counter, two calls that differ only in
  \<^verbatim>\<open>source_length\<close> fill the destination with the same integers (or leave defined
  behaviour at the same point). The parameter bounds no read.
\<close>

theorem decode_ignores_source_length:
  "decode total0 integers_to_decode source_as_void L1
     = (decode total0 integers_to_decode source_as_void L2
          :: undefined_behaviour + 'a::len word list \<times> u32)"
  by (simp add: decode_def)

end
